theory Spec2Isabelle
  imports Complex_Main "HOL-Library.AList"
begin

section \<open>The probability kernel of the optimizer\<close>

text \<open>
  The kernel is the group of pure functions in \<^verbatim>\<open>src/components/InputForm.tsx\<close>
  (lines 149--397): \<^verbatim>\<open>binomialCoefficient\<close>, \<^verbatim>\<open>calculateSDistribution\<close>,
  \<^verbatim>\<open>calculateMaxExpectation\<close>, \<^verbatim>\<open>calculateR\<close>, \<^verbatim>\<open>calculateExpectationForP\<close>,
  \<^verbatim>\<open>findOptimalP\<close> and \<^verbatim>\<open>sensitivityAnalysis\<close>.

  Conventions of the embedding.
  \<^item> A TypeScript \<^verbatim>\<open>number\<close> that carries a quantity (\<open>p\<close>, \<open>r\<close>, \<open>C\<close>, a tolerance,
    a step, a probability mass, an expectation) is a \<^typ>\<open>real\<close>: arithmetic is exact,
    rounding of IEEE doubles is not part of the model.
  \<^item> The counts \<open>N\<close> and \<open>A\<close>, and every loop index that runs over them, are \<^typ>\<open>nat\<close>;
    \<^verbatim>\<open>Math.pow(x, k)\<close> with such an exponent is \<open>x ^ k\<close>.
  \<^item> The only non-finite number the kernel produces on purpose is \<^verbatim>\<open>-Infinity\<close>, the
    value of an infeasible objective; it is a constructor of its own.
  \<^item> A \<^verbatim>\<open>Map<number, number>\<close> is an association list in insertion order;
    \<^verbatim>\<open>m.set(k, v)\<close> is \<^const>\<open>AList.update\<close> (overwrite in place, else append),
    \<^verbatim>\<open>m.get(k)!\<close> is \<open>the (map_of m k)\<close>, \<^verbatim>\<open>m.keys()\<close> is \<open>map fst m\<close>.
  \<^item> A \<^verbatim>\<open>while\<close> loop that need not end is a partial function into \<open>option\<close>:
    \<open>None\<close> is "does not return".
\<close>

subsection \<open>Numbers with negative infinity\<close>

datatype xnum = NegInfinity | Finite real

text \<open>The comparison \<^verbatim>\<open>a < b\<close> of JavaScript on these values.\<close>

fun xless :: "xnum \<Rightarrow> xnum \<Rightarrow> bool" where
  "xless NegInfinity NegInfinity = False"
| "xless NegInfinity (Finite b) = True"
| "xless (Finite a) NegInfinity = False"
| "xless (Finite a) (Finite b) = (a < b)"

subsection \<open>binomialCoefficient\<close>

text \<open>
  \<^verbatim>\<open>
  function binomialCoefficient(n, k) {
    if (k < 0 || k > n) return 0;
    if (k === 0 || k === n) return 1;
    let result = 1;
    for (let i = 0; i < k; i++) { result = (result * (n - i)) / (i + 1); }
    return result;
  }
  \<close>
  Its only caller passes a loop index \<open>0 \<le> k \<le> N\<close>, so \<open>k < 0\<close> is excluded by the type.
\<close>

definition binomialCoefficient :: "nat \<Rightarrow> nat \<Rightarrow> real" where
  "binomialCoefficient n k =
     (if k > n then 0
      else if k = 0 \<or> k = n then 1
      else fold (\<lambda>i result. (result * (real n - real i)) / (real i + 1)) [0..<k] 1)"

subsection \<open>calculateSDistribution\<close>

text \<open>
  \<^verbatim>\<open>
  const distribution = new Map();
  if (Math.abs(r - 1) < 1e-10) { distribution.set(N, 1); return distribution; }
  if (p === 0) { distribution.set(N, 1); return distribution; }
  if (p === 1) { distribution.set(N * r, 1); return distribution; }
  for (let k = 0; k <= N; k++) {
    const value = N + k * (r - 1);
    const probability = binomialCoefficient(N, k) * Math.pow(p, k) * Math.pow(1 - p, N - k);
    distribution.set(value, probability);
  }
  return distribution;
  \<close>
\<close>

type_synonym distribution = "(real \<times> real) list"

definition binomial_entry :: "nat \<Rightarrow> real \<Rightarrow> real \<Rightarrow> nat \<Rightarrow> real \<times> real" where
  "binomial_entry N p r k =
     (real N + real k * (r - 1), binomialCoefficient N k * p ^ k * (1 - p) ^ (N - k))"

definition calculateSDistribution :: "nat \<Rightarrow> real \<Rightarrow> real \<Rightarrow> distribution" where
  "calculateSDistribution N p r =
     (if \<bar>r - 1\<bar> < 1 / 10 ^ 10 then AList.update (real N) 1 []
      else if p = 0 then AList.update (real N) 1 []
      else if p = 1 then AList.update (real N * r) 1 []
      else fold (\<lambda>k dist. AList.update (fst (binomial_entry N p r k))
                                         (snd (binomial_entry N p r k)) dist)
                [0..<N + 1] [])"

subsection \<open>calculateMaxExpectation\<close>

text \<open>
  \<^verbatim>\<open>
  const sortedValues = Array.from(sDistribution.keys()).sort((a, b) => a - b);
  if (sortedValues.length === 1) { return sortedValues[0]; }
  const cdf = new Map();
  let cumulative = 0;
  for (const value of sortedValues) {
    cumulative += sDistribution.get(value)!;
    cdf.set(value, cumulative);
  }
  let expectation = 0;
  let prevCdf = 0;
  for (const value of sortedValues) {
    const currentCdf = cdf.get(value)!;
    const probMaxEqualsValue = Math.pow(currentCdf, A) - Math.pow(prevCdf, A);
    expectation += value * probMaxEqualsValue;
    prevCdf = currentCdf;
  }
  return expectation;
  \<close>
  Both lookups are of keys that were just read from the map, so they are always defined.
\<close>

definition mass :: "distribution \<Rightarrow> real \<Rightarrow> real" where
  "mass d v = the (map_of d v)"

fun cdf_loop :: "distribution \<Rightarrow> real list \<Rightarrow> real \<Rightarrow> distribution \<Rightarrow> distribution" where
  "cdf_loop d [] cumulative cdf = cdf"
| "cdf_loop d (v # vs) cumulative cdf =
     cdf_loop d vs (cumulative + mass d v) (AList.update v (cumulative + mass d v) cdf)"

fun expectation_loop :: "distribution \<Rightarrow> nat \<Rightarrow> real list \<Rightarrow> real \<Rightarrow> real \<Rightarrow> real" where
  "expectation_loop cdf A [] expectation prevCdf = expectation"
| "expectation_loop cdf A (v # vs) expectation prevCdf =
     expectation_loop cdf A vs
       (expectation + v * (mass cdf v ^ A - prevCdf ^ A)) (mass cdf v)"

definition calculateMaxExpectation :: "distribution \<Rightarrow> nat \<Rightarrow> real" where
  "calculateMaxExpectation sDistribution A =
     (let sortedValues = sort (map fst sDistribution) in
      if length sortedValues = 1 then sortedValues ! 0
      else expectation_loop (cdf_loop sDistribution sortedValues 0 []) A sortedValues 0 0)"

subsection \<open>calculateR and calculateExpectationForP\<close>

definition calculateR :: "real \<Rightarrow> real \<Rightarrow> real" where
  "calculateR p C = C - 2 * p"

text \<open>
  \<^verbatim>\<open>
  const r = calculateR(p, C);
  if (r < 1) { return -Infinity; }
  const sDistribution = calculateSDistribution(N, p, r);
  return calculateMaxExpectation(sDistribution, A);
  \<close>
\<close>

definition calculateExpectationForP :: "real \<Rightarrow> nat \<Rightarrow> nat \<Rightarrow> real \<Rightarrow> xnum" where
  "calculateExpectationForP p N A C =
     (let r = calculateR p C in
      if r < 1 then NegInfinity
      else Finite (calculateMaxExpectation (calculateSDistribution N p r) A))"

subsection \<open>findOptimalP\<close>

record OptimizationResult =
  optimalP :: real
  optimalR :: real
  maxExpectation :: xnum

text \<open>
  One pass through the body of the ternary-search loop:
  \<^verbatim>\<open>
  const mid1 = left + (right - left) / 3;
  const mid2 = right - (right - left) / 3;
  const expectation1 = calculateExpectationForP(mid1, N, A, C);
  const expectation2 = calculateExpectationForP(mid2, N, A, C);
  if (expectation1 < expectation2) { left = mid1; } else { right = mid2; }
  \<close>
\<close>

definition ternary_step :: "nat \<Rightarrow> nat \<Rightarrow> real \<Rightarrow> real \<times> real \<Rightarrow> real \<times> real" where
  "ternary_step N A C lr =
     (let left = fst lr; right = snd lr;
          mid1 = left + (right - left) / 3;
          mid2 = right - (right - left) / 3;
          expectation1 = calculateExpectationForP mid1 N A C;
          expectation2 = calculateExpectationForP mid2 N A C
      in if xless expectation1 expectation2 then (mid1, right) else (left, mid2))"

text \<open>\<^verbatim>\<open>while (right - left > tolerance) { ... }\<close>; the result is the final interval.\<close>

partial_function (option) ternary_search ::
  "nat \<Rightarrow> nat \<Rightarrow> real \<Rightarrow> real \<Rightarrow> real \<times> real \<Rightarrow> (real \<times> real) option" where
  "ternary_search N A C tolerance lr =
     (if snd lr - fst lr > tolerance
      then ternary_search N A C tolerance (ternary_step N A C lr)
      else Some lr)"

declare ternary_search.simps [code]

text \<open>
  \<^verbatim>\<open>
  if (C < 1) { return { optimalP: 0, optimalR: 1, maxExpectation: N }; }
  let left = 0;
  let right = Math.min(1, (C - 1) / 2);
  while ...
  const optimalP = (left + right) / 2;
  const maxExpectation = calculateExpectationForP(optimalP, N, A, C);
  const optimalR = calculateR(optimalP, C);
  return { optimalP, optimalR, maxExpectation };
  \<close>
\<close>

definition findOptimalP :: "nat \<Rightarrow> nat \<Rightarrow> real \<Rightarrow> real \<Rightarrow> OptimizationResult option" where
  "findOptimalP N A C tolerance =
     (if C < 1
      then Some \<lparr>optimalP = 0, optimalR = 1, maxExpectation = Finite (real N)\<rparr>
      else (case ternary_search N A C tolerance (0, min 1 ((C - 1) / 2)) of
              None \<Rightarrow> None
            | Some lr \<Rightarrow>
                (let oP = (fst lr + snd lr) / 2
                 in Some \<lparr>optimalP = oP, optimalR = calculateR oP C,
                          maxExpectation = calculateExpectationForP oP N A C\<rparr>)))"

subsection \<open>sensitivityAnalysis\<close>

record SensitivityPoint =
  point_p :: real
  point_r :: real
  point_expectation :: xnum

text \<open>
  The body of the sampling loop, for one index \<open>i\<close>:
  \<^verbatim>\<open>
  let p = i * step;
  if (p > maxP) { p = maxP; }
  const r = calculateR(p, C);
  const expectation = calculateExpectationForP(p, N, A, C);
  if (expectation !== -Infinity) { results.push({ p, r, expectation }); }
  \<close>
\<close>

definition push_point :: "nat \<Rightarrow> nat \<Rightarrow> real \<Rightarrow> real \<Rightarrow> SensitivityPoint list \<Rightarrow> SensitivityPoint list" where
  "push_point N A C p results =
     (let r = calculateR p C;
          expectation = calculateExpectationForP p N A C
      in if expectation \<noteq> NegInfinity
         then results @ [\<lparr>point_p = p, point_r = r, point_expectation = expectation\<rparr>]
         else results)"

definition sample_step :: "nat \<Rightarrow> nat \<Rightarrow> real \<Rightarrow> real \<Rightarrow> real \<Rightarrow> int \<Rightarrow> SensitivityPoint list \<Rightarrow> SensitivityPoint list" where
  "sample_step N A C step maxP i results =
     (let p = real_of_int i * step;
          p = (if p > maxP then maxP else p)
      in push_point N A C p results)"

text \<open>
  \<^verbatim>\<open>
  if (C < 1) { results.push({ p: 0, r: 1, expectation: N }); return results; }
  const maxP = Math.min(1, (C - 1) / 2);
  const numSteps = Math.floor(maxP / step);
  for (let i = 0; i <= numSteps; i++) { ... }
  const lastP = numSteps * step;
  if (lastP < maxP) {
    const r = calculateR(maxP, C);
    const expectation = calculateExpectationForP(maxP, N, A, C);
    if (expectation !== -Infinity) { results.push({ p: maxP, r, expectation }); }
  }
  return results;
  \<close>
  With \<open>step = 0\<close> the quotient \<^verbatim>\<open>maxP / step\<close> is \<^verbatim>\<open>Infinity\<close> when \<open>maxP > 0\<close>, and the
  loop never ends (\<open>None\<close>); it is \<^verbatim>\<open>NaN\<close> when \<open>maxP = 0\<close>, and then both comparisons
  with it are false and the empty list is returned.
\<close>

definition sensitivityAnalysis :: "nat \<Rightarrow> nat \<Rightarrow> real \<Rightarrow> real \<Rightarrow> SensitivityPoint list option" where
  "sensitivityAnalysis N A C step =
     (if C < 1
      then Some [\<lparr>point_p = 0, point_r = 1, point_expectation = Finite (real N)\<rparr>]
      else
        (let maxP = min 1 ((C - 1) / 2) in
         if step = 0 then (if maxP = 0 then Some [] else None)
         else
           (let numSteps = \<lfloor>maxP / step\<rfloor>;
                results = fold (sample_step N A C step maxP) [0..numSteps] [];
                lastP = real_of_int numSteps * step
            in if lastP < maxP then Some (push_point N A C maxP results)
               else Some results)))"

subsection \<open>Auxiliary notions used in the statements\<close>

text \<open>The width \<^verbatim>\<open>right - left\<close> of a search interval.\<close>

definition width :: "real \<times> real \<Rightarrow> real" where
  "width lr = snd lr - fst lr"

text \<open>The interval \<open>[0, min(1, (C - 1) / 2)]\<close> from which \<^const>\<open>findOptimalP\<close> starts.\<close>

definition feasible_interval :: "real \<Rightarrow> real \<times> real" where
  "feasible_interval C = (0, min 1 ((C - 1) / 2))"

text \<open>
  The point \<^verbatim>\<open>{ p, r, expectation }\<close> that the sampler computes for a given \<open>p\<close>
  (before the feasibility filter).
\<close>

definition sample_point :: "nat \<Rightarrow> nat \<Rightarrow> real \<Rightarrow> real \<Rightarrow> SensitivityPoint" where
  "sample_point N A C p =
     \<lparr>point_p = p, point_r = calculateR p C,
      point_expectation = calculateExpectationForP p N A C\<rparr>"

definition feasible_point :: "SensitivityPoint \<Rightarrow> bool" where
  "feasible_point q \<longleftrightarrow> point_expectation q \<noteq> NegInfinity"

subsection \<open>The expected maximum as the specification words it\<close>

text \<open>
  The specification describes the value of \<^const>\<open>calculateMaxExpectation\<close> without the
  two loops: \<open>v\<^sub>1 < \<dots> < v\<^sub>m\<close> are the distinct values in ascending order (here
  \<open>v\<^bsub>i+1\<^esub> = sorted_values d ! i\<close>), \<open>\<pi>\<^sub>i\<close> is the mass of \<open>v\<^sub>i\<close>, \<open>F\<^sub>0 = 0\<close> and
  \<open>F\<^sub>i = F\<^bsub>i-1\<^esub> + \<pi>\<^sub>i\<close>, and the result is \<open>\<Sum>\<^sub>i v\<^sub>i (F\<^sub>i ^ A - F\<^bsub>i-1\<^esub> ^ A)\<close>.
\<close>

definition sorted_values :: "distribution \<Rightarrow> real list" where
  "sorted_values d = sorted_list_of_set (fst ` set d)"

primrec spec_F :: "distribution \<Rightarrow> nat \<Rightarrow> real" where
  "spec_F d 0 = 0"
| "spec_F d (Suc i) = spec_F d i + mass d (sorted_values d ! i)"

definition spec_expectedMax :: "distribution \<Rightarrow> nat \<Rightarrow> real" where
  "spec_expectedMax d A =
     (\<Sum>i<length (sorted_values d).
        sorted_values d ! i * (spec_F d (Suc i) ^ A - spec_F d i ^ A))"

text \<open>
  The expectation of the maximum of \<open>A\<close> independent draws, from first principles: the
  outcomes are the \<open>A\<close>-tuples of values, the probability of a tuple is the product of
  the masses of its components, and its payoff is its largest component.
\<close>

definition iid_expected_max :: "distribution \<Rightarrow> nat \<Rightarrow> real" where
  "iid_expected_max d A =
     sum_list (map (\<lambda>t. prod_list (map (mass d) t) * Max (set t))
                   (List.n_lists A (map fst d)))"

text \<open>The tuples of length \<open>n\<close> over a set of values.\<close>

definition tuples :: "nat \<Rightarrow> real set \<Rightarrow> real list set" where
  "tuples n X = {t. set t \<subseteq> X \<and> length t = n}"

section \<open>The distribution builder\<close>

subsection \<open>Setting fresh keys appends\<close>

lemma update_fresh: "k \<notin> fst ` set al \<Longrightarrow> AList.update k v al = al @ [(k, v)]"
  by (induction al) auto

lemma fold_update_fresh:
  "distinct (map f ks) \<Longrightarrow> (\<forall>k\<in>set ks. f k \<notin> fst ` set al) \<Longrightarrow>
     fold (\<lambda>k dist. AList.update (f k) (g k) dist) ks al = al @ map (\<lambda>k. (f k, g k)) ks"
proof (induction ks arbitrary: al)
  case Nil
  then show ?case by simp
next
  case (Cons k ks)
  have fresh: "f k \<notin> fst ` set al" using Cons.prems(2) by simp
  have "\<forall>k'\<in>set ks. f k' \<notin> fst ` set (al @ [(f k, g k)])"
    using Cons.prems by (auto simp: image_iff)
  with Cons.IH [of "al @ [(f k, g k)]"] Cons.prems(1)
  show ?case by (simp add: update_fresh [OF fresh])
qed

subsection \<open>The binomial entries\<close>

lemma binomial_keys_distinct:
  assumes "r \<noteq> 1"
  shows "distinct (map (\<lambda>k. real N + real k * (r - 1)) [0..<n])"
proof -
  have "inj_on (\<lambda>k. real N + real k * (r - 1)) (set [0..<n])"
    using assms by (auto simp: inj_on_def)
  then show ?thesis by (simp add: distinct_map)
qed

lemma binomialCoefficient_fold:
  "k \<le> n \<Longrightarrow>
     fold (\<lambda>i result. (result * (real n - real i)) / (real i + 1)) [0..<k] 1 = real (n choose k)"
proof (induction k)
  case 0
  then show ?case by simp
next
  case (Suc k)
  then have IH: "fold (\<lambda>i result. (result * (real n - real i)) / (real i + 1)) [0..<k] 1
                   = real (n choose k)" by simp
  have "Suc k * (n choose Suc k) = (n - k) * (n choose k)"
    using binomial_absorb_comp binomial_absorption by presburger
  then have "real (Suc k) * real (n choose Suc k) = real (n - k) * real (n choose k)"
    by (metis of_nat_mult)
  then have "real (n choose Suc k) = real (n choose k) * (real n - real k) / (real k + 1)"
    using Suc.prems by (simp add: field_simps of_nat_diff)
  with IH show ?case by simp
qed

lemma binomialCoefficient_choose: "binomialCoefficient n k = real (n choose k)"
  by (simp add: binomialCoefficient_def binomialCoefficient_fold)

lemma calculateSDistribution_general:
  assumes "\<not> \<bar>r - 1\<bar> < 1 / 10 ^ 10" "p \<noteq> 0" "p \<noteq> 1"
  shows "calculateSDistribution N p r = map (binomial_entry N p r) [0..<N + 1]"
proof -
  from assms(1) have "r \<noteq> 1" by auto
  then have "distinct (map (\<lambda>k. fst (binomial_entry N p r k)) [0..<N + 1])"
    using binomial_keys_distinct [of r N "N + 1"] by (simp add: binomial_entry_def)
  from fold_update_fresh [OF this, of "[]" "\<lambda>k. snd (binomial_entry N p r k)"] assms
  show ?thesis by (simp add: calculateSDistribution_def)
qed

text \<open>
  Claim C2. The cases are read in the order in which the claim lists them, the first
  that applies deciding (as the \<^verbatim>\<open>if\<close> chain of the source does): when \<open>|r - 1| < 1e-10\<close>
  or \<open>p = 0\<close> the distribution is the single point \<open>{N: 1}\<close>; else when \<open>p = 1\<close> it is
  \<open>{N r: 1}\<close>; otherwise it has exactly \<open>N + 1\<close> entries with pairwise distinct keys, the
  \<open>k\<close>-th (\<open>k = 0..N\<close>) with key \<open>N + k (r - 1)\<close> and mass
  \<open>binomialCoefficient(N, k) p^k (1 - p)^(N - k)\<close>. In particular the distribution for
  \<open>N = 2\<close>, \<open>p = 0.5\<close>, \<open>r = 3\<close> is \<open>{2: 0.25, 4: 0.5, 6: 0.25}\<close>.
\<close>

theorem calculateSDistribution_cases:
  "calculateSDistribution N p r =
     (if \<bar>r - 1\<bar> < 1 / 10 ^ 10 \<or> p = 0 then [(real N, 1)]
      else if p = 1 then [(real N * r, 1)]
      else map (\<lambda>k. (real N + real k * (r - 1),
                      binomialCoefficient N k * p ^ k * (1 - p) ^ (N - k))) [0..<N + 1]) \<and>
   (\<not> (\<bar>r - 1\<bar> < 1 / 10 ^ 10 \<or> p = 0) \<and> p \<noteq> 1 \<longrightarrow>
      length (calculateSDistribution N p r) = N + 1 \<and>
      distinct (map fst (calculateSDistribution N p r))) \<and>
   calculateSDistribution 2 (1 / 2) 3 = [(2, 1 / 4), (4, 1 / 2), (6, 1 / 4)]"
proof (intro conjI impI)
  show "calculateSDistribution N p r =
     (if \<bar>r - 1\<bar> < 1 / 10 ^ 10 \<or> p = 0 then [(real N, 1)]
      else if p = 1 then [(real N * r, 1)]
      else map (\<lambda>k. (real N + real k * (r - 1),
                      binomialCoefficient N k * p ^ k * (1 - p) ^ (N - k))) [0..<N + 1])"
  proof (cases "\<not> \<bar>r - 1\<bar> < 1 / 10 ^ 10 \<and> p \<noteq> 0 \<and> p \<noteq> 1")
    case True
    then have "calculateSDistribution N p r = map (binomial_entry N p r) [0..<N + 1]"
      by (intro calculateSDistribution_general) simp_all
    also have "binomial_entry N p r = (\<lambda>k. (real N + real k * (r - 1),
                      binomialCoefficient N k * p ^ k * (1 - p) ^ (N - k)))"
      by (simp add: binomial_entry_def fun_eq_iff)
    finally show ?thesis using True by simp
  next
    case False
    then show ?thesis by (auto simp: calculateSDistribution_def)
  qed
next
  assume a: "\<not> (\<bar>r - 1\<bar> < 1 / 10 ^ 10 \<or> p = 0) \<and> p \<noteq> 1"
  then have eq: "calculateSDistribution N p r = map (binomial_entry N p r) [0..<N + 1]"
    by (intro calculateSDistribution_general) simp_all
  then show "length (calculateSDistribution N p r) = N + 1" by simp
  from a have "r \<noteq> 1" by auto
  from binomial_keys_distinct [OF this, of N "N + 1"]
  show "distinct (map fst (calculateSDistribution N p r))"
    by (simp add: eq binomial_entry_def comp_def)
next
  show "calculateSDistribution 2 (1 / 2) 3 = [(2, 1 / 4), (4, 1 / 2), (6, 1 / 4)]"
    by code_simp
qed

theorem calculateSDistribution_cases_witness:
  "calculateSDistribution 3 (1 / 3) 1 = [(3, 1)] \<and>
   calculateSDistribution 3 0 2 = [(3, 1)] \<and>
   calculateSDistribution 3 1 2 = [(6, 1)] \<and>
   calculateSDistribution 3 (1 / 3) 2 = [(3, 8 / 27), (4, 4 / 9), (5, 2 / 9), (6, 1 / 27)] \<and>
   length (calculateSDistribution 3 (1 / 3) 2) = 3 + 1 \<and>
   distinct (map fst (calculateSDistribution 3 (1 / 3) 2))"
proof -
  have entries: "map (\<lambda>k. (real 3 + real k * (2 - 1),
                      binomialCoefficient 3 k * (1 / 3) ^ k * (1 - 1 / 3) ^ (3 - k))) [0..<3 + 1]
                 = [(3, 8 / 27), (4, 4 / 9), (5, 2 / 9), (6, 1 / 27)]"
    by code_simp
  have c: "\<bar>1 - 1\<bar> < (1::real) / 10 ^ 10" "\<not> \<bar>2 - 1\<bar> < (1::real) / 10 ^ 10"
    "(1 / 3 :: real) \<noteq> 0" "(1 / 3 :: real) \<noteq> 1"
    by simp_all
  have "calculateSDistribution 3 (1 / 3) 1 = [(3, 1)]"
    using calculateSDistribution_cases [of 3 "1 / 3" 1] c by simp
  moreover have "calculateSDistribution 3 0 2 = [(3, 1)]"
    using calculateSDistribution_cases [of 3 0 2] by simp
  moreover have "calculateSDistribution 3 1 2 = [(6, 1)]"
    using calculateSDistribution_cases [of 3 1 2] c by simp
  moreover have "calculateSDistribution 3 (1 / 3) 2 =
      [(3, 8 / 27), (4, 4 / 9), (5, 2 / 9), (6, 1 / 27)]"
    using calculateSDistribution_cases [of 3 "1 / 3" 2] c by (simp only: entries if_False simp_thms)
  moreover have "length (calculateSDistribution 3 (1 / 3) 2) = 3 + 1 \<and>
      distinct (map fst (calculateSDistribution 3 (1 / 3) 2))"
    using calculateSDistribution_cases [of 3 "1 / 3" 2] c by blast
  ultimately show ?thesis by blast
qed

subsection \<open>What the builder returns is a probability distribution\<close>

text \<open>
  For \<open>0 \<le> p \<le> 1\<close> the keys are pairwise distinct, the masses are non-negative and
  they sum to 1 (the binomial theorem), so the results on the expected maximum below
  apply to every distribution the objective builds.
\<close>

lemma calculateSDistribution_well_formed:
  assumes p: "0 \<le> p" "p \<le> 1"
  shows "distinct (map fst (calculateSDistribution N p r)) \<and>
         (\<forall>e\<in>set (calculateSDistribution N p r). 0 \<le> snd e) \<and>
         sum_list (map snd (calculateSDistribution N p r)) = 1"
proof (cases "\<not> \<bar>r - 1\<bar> < 1 / 10 ^ 10 \<and> p \<noteq> 0 \<and> p \<noteq> 1")
  case False
  then show ?thesis by (auto simp: calculateSDistribution_def)
next
  case True
  then have eq: "calculateSDistribution N p r = map (binomial_entry N p r) [0..<N + 1]"
    by (intro calculateSDistribution_general) simp_all
  from True have "r \<noteq> 1" by auto
  from binomial_keys_distinct [OF this, of N "N + 1"]
  have 1: "distinct (map fst (calculateSDistribution N p r))"
    by (simp add: eq binomial_entry_def comp_def)
  have 2: "\<forall>e\<in>set (calculateSDistribution N p r). 0 \<le> snd e"
    using p by (auto simp: eq binomial_entry_def binomialCoefficient_choose)
  have "sum_list (map snd (calculateSDistribution N p r))
      = (\<Sum>k\<le>N. real (N choose k) * p ^ k * (1 - p) ^ (N - k))"
    by (simp add: eq binomial_entry_def binomialCoefficient_choose comp_def
        interv_sum_list_conv_sum_set_nat atLeast0AtMost atLeastLessThanSuc_atLeastAtMost
        del: upt_Suc)
  also have "\<dots> = (p + (1 - p)) ^ N" by (rule binomial_ring [symmetric])
  finally have 3: "sum_list (map snd (calculateSDistribution N p r)) = 1" by simp
  from 1 2 3 show ?thesis by blast
qed

section \<open>The expected maximum\<close>

subsection \<open>The two loops\<close>

lemma sorted_values_sort:
  "distinct (map fst d) \<Longrightarrow> sorted_values d = sort (map fst d)"
  by (simp add: sorted_values_def sorted_list_of_set_sort_remdups distinct_remdups_id
      flip: set_map)

lemma cdf_loop_other:
  "v \<notin> set vs \<Longrightarrow> map_of (cdf_loop d vs c cdf) v = map_of cdf v"
  by (induction vs arbitrary: c cdf) (auto simp: update_conv')

lemma cdf_loop_lookup:
  "distinct vs \<Longrightarrow> i < length vs \<Longrightarrow>
     map_of (cdf_loop d vs c cdf) (vs ! i) = Some (c + sum_list (map (mass d) (take (Suc i) vs)))"
proof (induction vs arbitrary: c cdf i)
  case Nil
  then show ?case by simp
next
  case (Cons v vs)
  show ?case
  proof (cases i)
    case 0
    with Cons.prems show ?thesis by (simp add: cdf_loop_other update_conv')
  next
    case (Suc j)
    with Cons.prems Cons.IH [of j "c + mass d v"] show ?thesis by (simp add: add.assoc)
  qed
qed

lemma spec_F_take:
  "i \<le> length (sorted_values d) \<Longrightarrow>
     spec_F d i = sum_list (map (mass d) (take i (sorted_values d)))"
  by (induction i) (simp_all add: take_Suc_conv_app_nth)

lemma expectation_loop_sum:
  assumes "\<forall>i<length vs. mass cdf (vs ! i) = F (Suc i)"
  shows "k \<le> length vs \<Longrightarrow>
     expectation_loop cdf A (drop k vs) e (F k) =
       e + (\<Sum>i = k..<length vs. vs ! i * (F (Suc i) ^ A - F i ^ A))"
proof (induction "length vs - k" arbitrary: k e)
  case 0
  then show ?case by simp
next
  case (Suc n)
  then have k: "k < length vs" by simp
  then have d: "drop k vs = vs ! k # drop (Suc k) vs" by (simp add: Cons_nth_drop_Suc)
  from Suc(2) have n: "n = length vs - Suc k" by simp
  from k assms have m: "mass cdf (vs ! k) = F (Suc k)" by simp
  from k have "Suc k \<le> length vs" by simp
  from Suc(1) [OF n this] k show ?case
    by (simp add: d m sum.atLeast_Suc_lessThan)
qed


lemma mass_fst:
  assumes "distinct (map fst d)" and "e \<in> set d"
  shows "mass d (fst e) = snd e"
proof -
  from assms have "map_of d (fst e) = Some (snd e)" by (intro map_of_is_SomeI) simp_all
  then show ?thesis by (simp add: mass_def)
qed

lemma calculateMaxExpectation_single:
  "length d = 1 \<Longrightarrow> calculateMaxExpectation d A = fst (hd d)"
  by (cases d) (simp_all add: calculateMaxExpectation_def)

lemma calculateMaxExpectation_sum:
  assumes dist: "distinct (map fst d)" and len: "length d \<noteq> 1"
  shows "calculateMaxExpectation d A = spec_expectedMax d A"
proof -
  let ?vs = "sorted_values d"
  have vs: "sort (map fst d) = ?vs" using dist by (simp add: sorted_values_sort)
  have dvs: "distinct ?vs" by (simp add: sorted_values_def)
  have lvs: "length ?vs \<noteq> 1" using len by (simp flip: vs)
  let ?cdf = "cdf_loop d ?vs 0 []"
  have "\<forall>i<length ?vs. mass ?cdf (?vs ! i) = spec_F d (Suc i)"
  proof (intro allI impI)
    fix i assume i: "i < length ?vs"
    from cdf_loop_lookup [OF dvs i, of d 0 "[]"]
    have "mass ?cdf (?vs ! i) = sum_list (map (mass d) (take (Suc i) ?vs))"
      by (simp add: mass_def)
    also have "\<dots> = spec_F d (Suc i)" using i by (simp only: spec_F_take Suc_leI)
    finally show "mass ?cdf (?vs ! i) = spec_F d (Suc i)" .
  qed
  from expectation_loop_sum [OF this, of 0 A 0]
  have "expectation_loop ?cdf A ?vs 0 0 = spec_expectedMax d A"
    by (simp add: spec_expectedMax_def lessThan_atLeast0)
  with lvs show ?thesis by (simp add: calculateMaxExpectation_def vs)
qed

lemma spec_expectedMax_single:
  assumes "d = [(v, 1)]" and "1 \<le> A"
  shows "spec_expectedMax d A = v"
  using assms by (simp add: spec_expectedMax_def sorted_values_def mass_def)

lemma spec_F_atMost:
  "spec_F d (Suc i) = (\<Sum>j\<le>i. mass d (sorted_values d ! j))"
  by (induction i) simp_all

subsection \<open>The formula is the expectation of the maximum\<close>

lemma finite_tuples: "finite X \<Longrightarrow> finite (tuples n X)"
  unfolding tuples_def by (rule finite_lists_length_eq)

lemma tuples_Suc: "tuples (Suc n) X = (\<lambda>(xs, x). x # xs) ` (tuples n X \<times> X)"
  unfolding tuples_def by (rule lists_length_Suc_eq)

lemma weight_tuples:
  assumes "finite X"
  shows "(\<Sum>t\<in>tuples n X. prod_list (map f t)) = (sum f X :: real) ^ n"
proof (induction n)
  case 0
  have "tuples 0 X = {[]}" by (auto simp: tuples_def)
  then show ?case by simp
next
  case (Suc n)
  have inj: "inj_on (\<lambda>(xs, x). x # xs) (tuples n X \<times> X)"
    by (auto simp: inj_on_def)
  have "(\<Sum>t\<in>tuples (Suc n) X. prod_list (map f t))
      = (\<Sum>(xs, x)\<in>tuples n X \<times> X. f x * prod_list (map f xs))"
    by (simp only: tuples_Suc sum.reindex [OF inj]) (simp add: case_prod_unfold)
  also have "\<dots> = (\<Sum>xs\<in>tuples n X. \<Sum>x\<in>X. f x * prod_list (map f xs))"
    by (simp add: sum.cartesian_product)
  also have "\<dots> = (\<Sum>xs\<in>tuples n X. sum f X * prod_list (map f xs))"
    by (simp flip: sum_distrib_right)
  also have "\<dots> = sum f X * (\<Sum>xs\<in>tuples n X. prod_list (map f xs))"
    by (simp add: sum_distrib_left)
  finally show ?case by (simp add: Suc.IH)
qed

lemma max_tuples_insert:
  assumes fin: "finite X" and above: "\<forall>x\<in>X. x < v"
  shows "(\<Sum>t\<in>tuples n (insert v X). prod_list (map f t) * Max (set t))
       = (\<Sum>t\<in>tuples n X. prod_list (map f t) * Max (set t))
         + v * ((sum f X + f v) ^ n - (sum f X :: real) ^ n)"
proof -
  let ?w = "\<lambda>t. prod_list (map f t)"
  let ?new = "{t \<in> tuples n (insert v X). v \<in> set t}"
  from above have fresh: "v \<notin> X" by auto
  have split: "tuples n X \<union> ?new = tuples n (insert v X)"
    by (auto simp: tuples_def)
  have disj: "tuples n X \<inter> ?new = {}"
    using fresh by (auto simp: tuples_def)
  have f1: "finite (tuples n X)" using fin by (rule finite_tuples)
  have f2: "finite (tuples n (insert v X))" using fin by (intro finite_tuples) simp
  then have f3: "finite ?new" by simp
  have maxv: "Max (set t) = v" if "t \<in> ?new" for t
  proof (rule Max_eqI)
    show "finite (set t)" by simp
    show "v \<in> set t" using that by simp
    fix y assume "y \<in> set t"
    with that have "y \<in> insert v X" by (auto simp: tuples_def)
    with above show "y \<le> v" by auto
  qed
  have "(\<Sum>t\<in>?new. ?w t) = (\<Sum>t\<in>tuples n (insert v X). ?w t) - (\<Sum>t\<in>tuples n X. ?w t)"
    using sum.union_disjoint [OF f1 f3 disj, of ?w] by (simp only: split)
  also have "\<dots> = (sum f X + f v) ^ n - (sum f X) ^ n"
    using fin fresh by (simp add: weight_tuples add.commute)
  finally have new: "(\<Sum>t\<in>?new. ?w t) = (sum f X + f v) ^ n - (sum f X) ^ n" .
  have "(\<Sum>t\<in>tuples n (insert v X). ?w t * Max (set t))
      = (\<Sum>t\<in>tuples n X. ?w t * Max (set t)) + (\<Sum>t\<in>?new. ?w t * Max (set t))"
    using sum.union_disjoint [OF f1 f3 disj, of "\<lambda>t. ?w t * Max (set t)"]
    by (simp only: split)
  also have "(\<Sum>t\<in>?new. ?w t * Max (set t)) = (\<Sum>t\<in>?new. ?w t * v)"
    by (rule sum.cong) (simp_all add: maxv)
  also have "\<dots> = v * (\<Sum>t\<in>?new. ?w t)"
    by (simp add: sum_distrib_left mult.commute)
  finally show ?thesis by (simp add: new)
qed


lemma max_tuples_sorted:
  assumes n: "1 \<le> n"
  shows "sorted_wrt (<) vs \<Longrightarrow>
     (\<Sum>t\<in>tuples n (set vs). prod_list (map f t) * Max (set t))
       = (\<Sum>i<length vs. vs ! i * (sum_list (map f (take (Suc i) vs)) ^ n
                                   - (sum_list (map f (take i vs)) :: real) ^ n))"
proof (induction vs rule: rev_induct)
  case Nil
  from n have "tuples n {} = {}" by (auto simp: tuples_def)
  then show ?case by simp
next
  case (snoc v ys)
  from snoc.prems have sorted: "sorted_wrt (<) ys" and above: "\<forall>y\<in>set ys. y < v"
    by (simp_all add: sorted_wrt_append)
  from sorted have "distinct ys" by (simp add: strict_sorted_iff)
  then have total: "sum f (set ys) = sum_list (map f ys)"
    by (simp add: sum_list_distinct_conv_sum_set)
  have "(\<Sum>t\<in>tuples n (set (ys @ [v])). prod_list (map f t) * Max (set t))
      = (\<Sum>t\<in>tuples n (set ys). prod_list (map f t) * Max (set t))
        + v * ((sum_list (map f ys) + f v) ^ n - sum_list (map f ys) ^ n)"
    using max_tuples_insert [OF _ above, where n = n and f = f] by (simp add: total)
  also have "(\<Sum>t\<in>tuples n (set ys). prod_list (map f t) * Max (set t))
      = (\<Sum>i<length ys. ys ! i * (sum_list (map f (take (Suc i) ys)) ^ n
                                   - sum_list (map f (take i ys)) ^ n))"
    by (rule snoc.IH [OF sorted])
  also have "\<dots> = (\<Sum>i<length ys. (ys @ [v]) ! i *
        (sum_list (map f (take (Suc i) (ys @ [v]))) ^ n
           - sum_list (map f (take i (ys @ [v]))) ^ n))"
    by (rule sum.cong) (simp_all add: nth_append)
  finally show ?case by simp
qed

lemma iid_expected_max_tuples:
  assumes "distinct (map fst d)"
  shows "iid_expected_max d A =
     (\<Sum>t\<in>tuples A (fst ` set d). prod_list (map (mass d) t) * Max (set t))"
proof -
  have "distinct (List.n_lists A (map fst d))" using assms by (rule distinct_n_lists)
  then have "iid_expected_max d A =
      (\<Sum>t\<in>set (List.n_lists A (map fst d)). prod_list (map (mass d) t) * Max (set t))"
    by (simp add: iid_expected_max_def sum_list_distinct_conv_sum_set)
  also have "set (List.n_lists A (map fst d)) = tuples A (fst ` set d)"
    by (auto simp: set_n_lists tuples_def)
  finally show ?thesis .
qed

lemma spec_expectedMax_iid:
  assumes "distinct (map fst d)" and "1 \<le> A"
  shows "spec_expectedMax d A = iid_expected_max d A"
proof -
  let ?vs = "sorted_values d"
  have set: "set ?vs = fst ` set d" by (simp add: sorted_values_def)
  have "sorted_wrt (<) ?vs" by (simp add: sorted_values_def)
  from max_tuples_sorted [OF assms(2) this, where f = "mass d"]
  have "iid_expected_max d A =
      (\<Sum>i<length ?vs. ?vs ! i * (sum_list (map (mass d) (take (Suc i) ?vs)) ^ A
                                   - sum_list (map (mass d) (take i ?vs)) ^ A))"
    by (simp add: iid_expected_max_tuples [OF assms(1)] set)
  also have "\<dots> = (\<Sum>i<length ?vs. ?vs ! i * (spec_F d (Suc i) ^ A - spec_F d i ^ A))"
    by (rule sum.cong) (simp_all add: spec_F_take Suc_leI del: spec_F.simps)
  finally show ?thesis by (simp add: spec_expectedMax_def)
qed

subsection \<open>Concrete values\<close>

lemma calculateMaxExpectation_eval_2:
  "calculateMaxExpectation [(2, 1 / 4), (4, 1 / 2), (6, 1 / 4)] 2 = 19 / 4"
  by code_simp

lemma calculateMaxExpectation_eval_3:
  "calculateMaxExpectation [(5, 1)] 3 = 5"
  by code_simp

lemma calculateMaxExpectation_eval_4:
  "calculateMaxExpectation [(2, 1 / 4), (4, 1 / 2), (6, 1 / 4)] 1 = 4"
  by code_simp

subsection \<open>The formula\<close>

text \<open>
  Claim C1. Let the distribution be a map with pairwise distinct keys whose masses sum
  to 1, and let \<open>A \<ge> 1\<close>. With the distinct values in ascending order
  \<open>v\<^sub>1 < \<dots> < v\<^sub>m\<close> and the cumulative sums \<open>F\<^sub>0 = 0\<close>, \<open>F\<^sub>i = F\<^bsub>i-1\<^esub> + \<pi>\<^sub>i\<close>, the function
  \<^const>\<open>calculateMaxExpectation\<close> returns \<open>\<Sum>\<^sub>i v\<^sub>i (F\<^sub>i ^ A - F\<^bsub>i-1\<^esub> ^ A)\<close>, which is the
  expectation of the maximum of \<open>A\<close> independent draws (the sum, over all \<open>A\<close>-tuples of
  values, of the product of the masses times the largest component); and on a map
  with exactly one entry it returns that entry's value, for every \<open>A\<close>. (That the masses
  are non-negative is not needed for this.)
\<close>

theorem calculateMaxExpectation_formula:
  assumes "distinct (map fst d)" and "sum_list (map snd d) = 1" and "1 \<le> A"
  shows "calculateMaxExpectation d A = spec_expectedMax d A \<and>
         calculateMaxExpectation d A = iid_expected_max d A \<and>
         sorted_wrt (<) (sorted_values d) \<and> set (sorted_values d) = fst ` set d \<and>
         (\<forall>i<length (sorted_values d). spec_F d (Suc i) =
              (\<Sum>j\<le>i. mass d (sorted_values d ! j))) \<and>
         (length d = 1 \<longrightarrow> calculateMaxExpectation d A = fst (hd d))"
proof (intro conjI allI impI)
  show formula: "calculateMaxExpectation d A = spec_expectedMax d A"
  proof (cases "length d = 1")
    case False
    with assms(1) show ?thesis by (rule calculateMaxExpectation_sum)
  next
    case True
    then obtain v q where d: "d = [(v, q)]" by (cases d) auto
    with assms(2) have "d = [(v, 1)]" by simp
    from spec_expectedMax_single [OF this assms(3)] d show ?thesis
      by (simp add: calculateMaxExpectation_single)
  qed
  show "calculateMaxExpectation d A = iid_expected_max d A"
    by (simp only: formula spec_expectedMax_iid [OF assms(1,3)])
next
  show "sorted_wrt (<) (sorted_values d)" by (simp add: sorted_values_def)
next
  show "set (sorted_values d) = fst ` set d" by (simp add: sorted_values_def)
next
  fix i show "spec_F d (Suc i) = (\<Sum>j\<le>i. mass d (sorted_values d ! j))"
    by (rule spec_F_atMost)
next
  assume "length d = 1"
  then show "calculateMaxExpectation d A = fst (hd d)"
    by (rule calculateMaxExpectation_single)
qed

theorem calculateMaxExpectation_formula_witness:
  "distinct (map fst [(2, 1 / 4), (4, 1 / 2), (6, 1 / 4 :: real)] :: real list) \<and>
   sum_list (map snd [(2 :: real, 1 / 4), (4, 1 / 2), (6, 1 / 4 :: real)]) = 1 \<and>
   (1::nat) \<le> 2 \<and>
   calculateMaxExpectation [(2, 1 / 4), (4, 1 / 2), (6, 1 / 4)] 2 = 19 / 4 \<and>
   spec_expectedMax [(2, 1 / 4), (4, 1 / 2), (6, 1 / 4)] 2 = 19 / 4 \<and>
   iid_expected_max [(2, 1 / 4), (4, 1 / 2), (6, 1 / 4)] 2 = 19 / 4 \<and>
   calculateMaxExpectation [(5, 1)] 3 = 5 \<and>
   spec_expectedMax [(5, 1)] 3 = 5"
proof -
  have h: "distinct (map fst [(2, 1 / 4), (4, 1 / 2), (6, 1 / 4 :: real)] :: real list)"
    "sum_list (map snd [(2 :: real, 1 / 4), (4, 1 / 2), (6, 1 / 4 :: real)]) = 1"
    "(1::nat) \<le> 2" by simp_all
  have g: "distinct (map fst [(5, 1 :: real)] :: real list)"
    "sum_list (map snd [(5 :: real, 1 :: real)]) = 1" "(1::nat) \<le> 3" by simp_all
  from calculateMaxExpectation_formula [OF h] calculateMaxExpectation_formula [OF g]
    calculateMaxExpectation_eval_2 calculateMaxExpectation_eval_3 h
  show ?thesis by simp
qed

subsection \<open>Monotonicity in the number of draws\<close>

lemma expectation_loop_acc:
  "expectation_loop cdf A ws e prev = e + expectation_loop cdf A ws 0 prev"
proof (induction ws arbitrary: e prev)
  case Nil
  then show ?case by simp
next
  case (Cons w ws)
  from Cons [of "e + w * (mass cdf w ^ A - prev ^ A)" "mass cdf w"]
       Cons [of "w * (mass cdf w ^ A - prev ^ A)" "mass cdf w"]
  show ?case by simp
qed

lemma expectation_loop_mono_suffix:
  assumes A: "A1 \<le> A2"
  shows "ws \<noteq> [] \<Longrightarrow> sorted ws \<Longrightarrow> 0 \<le> prev \<Longrightarrow> sorted (prev # map (mass cdf) ws) \<Longrightarrow>
         last (map (mass cdf) ws) = 1 \<Longrightarrow>
         hd ws * (prev ^ A1 - prev ^ A2)
           \<le> expectation_loop cdf A2 ws 0 prev - expectation_loop cdf A1 ws 0 prev"
proof (induction ws arbitrary: prev rule: list_nonempty_induct)
  case (single w)
  then have "mass cdf w = 1" by simp
  then show ?case by (simp add: algebra_simps)
next
  case (cons w ws)
  let ?g = "mass cdf w"
  from cons.prems have g0: "0 \<le> ?g" by simp
  from cons.hyps have "last ws \<in> set ws" by simp
  moreover from cons.prems cons.hyps have "mass cdf (last ws) = 1" by (simp add: last_map)
  moreover from cons.prems have "\<forall>x\<in>set ws. ?g \<le> mass cdf x" by simp
  ultimately have g1: "?g \<le> 1" by metis
  from cons.prems cons.hyps have w: "w \<le> hd ws" by (cases ws) simp_all
  have pw: "0 \<le> ?g ^ A1 - ?g ^ A2" using power_decreasing [OF A g0 g1] by simp
  have IH: "hd ws * (?g ^ A1 - ?g ^ A2)
      \<le> expectation_loop cdf A2 ws 0 ?g - expectation_loop cdf A1 ws 0 ?g"
    using cons.prems cons.hyps by (intro cons.IH g0) (simp_all add: last_map)
  have "w * (?g ^ A1 - ?g ^ A2) \<le> hd ws * (?g ^ A1 - ?g ^ A2)"
    using w pw by (rule mult_right_mono)
  with IH have "w * (?g ^ A1 - ?g ^ A2)
      \<le> expectation_loop cdf A2 ws 0 ?g - expectation_loop cdf A1 ws 0 ?g" by simp
  moreover have "expectation_loop cdf A (w # ws) 0 prev
      = w * (?g ^ A - prev ^ A) + expectation_loop cdf A ws 0 ?g" for A
    using expectation_loop_acc [of cdf A ws "w * (?g ^ A - prev ^ A)" ?g] by simp
  ultimately show ?case by (simp add: algebra_simps)
qed


lemma mass_sorted_values_nonneg:
  assumes dist: "distinct (map fst d)" and nonneg: "\<forall>e\<in>set d. 0 \<le> snd e"
    and i: "i < length (sorted_values d)"
  shows "0 \<le> mass d (sorted_values d ! i)"
proof -
  from i have "sorted_values d ! i \<in> set (sorted_values d)" by simp
  then have "sorted_values d ! i \<in> fst ` set d" by (simp add: sorted_values_def)
  then obtain e where e: "e \<in> set d" "sorted_values d ! i = fst e" by auto
  from mass_fst [OF dist e(1)] nonneg e show ?thesis by simp
qed

lemma spec_F_mono:
  assumes dist: "distinct (map fst d)" and nonneg: "\<forall>e\<in>set d. 0 \<le> snd e"
  shows "i \<le> j \<Longrightarrow> j \<le> length (sorted_values d) \<Longrightarrow> spec_F d i \<le> spec_F d j"
proof (induction j)
  case 0
  then show ?case by simp
next
  case (Suc j)
  show ?case
  proof (cases "i = Suc j")
    case True
    then show ?thesis by simp
  next
    case False
    with Suc.prems have "i \<le> j" "j < length (sorted_values d)" by simp_all
    with Suc.IH mass_sorted_values_nonneg [OF dist nonneg, of j] show ?thesis by simp
  qed
qed

lemma spec_F_total:
  assumes dist: "distinct (map fst d)"
  shows "spec_F d (length (sorted_values d)) = sum_list (map snd d)"
proof -
  let ?vs = "sorted_values d"
  have "spec_F d (length ?vs) = sum_list (map (mass d) ?vs)" by (simp add: spec_F_take)
  also have "\<dots> = sum (mass d) (set ?vs)"
    by (rule sum_list_distinct_conv_sum_set) (simp add: sorted_values_def)
  also have "set ?vs = set (map fst d)" by (simp add: sorted_values_def)
  also have "sum (mass d) (set (map fst d)) = sum_list (map (mass d) (map fst d))"
    by (rule sum_list_distinct_conv_sum_set [symmetric]) (rule dist)
  also have "\<dots> = sum_list (map snd d)"
    using mass_fst [OF dist] by (simp add: comp_def cong: map_cong)
  finally show ?thesis .
qed

text \<open>
  Claim C8. For a fixed distribution (pairwise distinct keys, non-negative masses that
  sum to 1) and \<open>1 \<le> A1 \<le> A2\<close>, the expected maximum of \<open>A1\<close> draws is at most that of
  \<open>A2\<close> draws. This holds in particular for every distribution with at least two values
  of positive mass.
\<close>

theorem calculateMaxExpectation_nondecreasing:
  assumes dist: "distinct (map fst d)" and nonneg: "\<forall>e\<in>set d. 0 \<le> snd e"
    and total: "sum_list (map snd d) = 1" and A1: "1 \<le> A1" and A: "A1 \<le> A2"
  shows "calculateMaxExpectation d A1 \<le> calculateMaxExpectation d A2"
proof (cases "length d = 1")
  case True
  then show ?thesis by (simp add: calculateMaxExpectation_single)
next
  case False
  let ?vs = "sorted_values d"
  let ?cdf = "cdf_loop d ?vs 0 []"
  have vs: "sort (map fst d) = ?vs" using dist by (simp add: sorted_values_sort)
  have dvs: "distinct ?vs" by (simp add: sorted_values_def)
  have len: "length ?vs = length d" by (simp flip: vs)
  have lvs: "length ?vs \<noteq> 1" using False by (simp add: len)
  from total have "d \<noteq> []" by auto
  with len have ne: "?vs \<noteq> []" by (metis length_0_conv)
  have cdf: "mass ?cdf (?vs ! i) = spec_F d (Suc i)" if "i < length ?vs" for i
  proof -
    from cdf_loop_lookup [OF dvs that, of d 0 "[]"]
    have "mass ?cdf (?vs ! i) = sum_list (map (mass d) (take (Suc i) ?vs))"
      by (simp add: mass_def)
    also have "\<dots> = spec_F d (Suc i)" using that by (simp only: spec_F_take Suc_leI)
    finally show ?thesis .
  qed
  have sorted_cdf: "sorted (map (mass ?cdf) ?vs)"
    unfolding sorted_iff_nth_mono
  proof (intro allI impI)
    fix i j assume "i \<le> j" "j < length (map (mass ?cdf) ?vs)"
    then have ij: "i \<le> j" "j < length ?vs" "i < length ?vs" by simp_all
    from spec_F_mono [OF dist nonneg, of "Suc i" "Suc j"] ij
    have "spec_F d (Suc i) \<le> spec_F d (Suc j)" by simp
    with ij show "map (mass ?cdf) ?vs ! i \<le> map (mass ?cdf) ?vs ! j" by (simp add: cdf)
  qed
  have "\<forall>x\<in>set (map (mass ?cdf) ?vs). 0 \<le> x"
  proof
    fix x assume "x \<in> set (map (mass ?cdf) ?vs)"
    then obtain i where i: "i < length ?vs" "x = mass ?cdf (?vs ! i)"
      by (auto simp: in_set_conv_nth)
    from spec_F_mono [OF dist nonneg, of 0 "Suc i"] i show "0 \<le> x" by (simp add: cdf)
  qed
  with sorted_cdf have chain: "sorted (0 # map (mass ?cdf) ?vs)" by simp
  have "last (map (mass ?cdf) ?vs) = mass ?cdf (?vs ! (length ?vs - 1))"
    using ne by (simp add: last_map last_conv_nth)
  also have "\<dots> = spec_F d (Suc (length ?vs - 1))" using ne by (intro cdf) simp
  also have "\<dots> = 1" using ne total by (simp add: spec_F_total [OF dist])
  finally have last: "last (map (mass ?cdf) ?vs) = 1" .
  have "sorted ?vs" by (simp add: sorted_values_def strict_sorted_imp_sorted)
  have zero: "(0::real) ^ A1 = 0" "(0::real) ^ A2 = 0"
    using A1 A by (simp_all add: power_0_left)
  from expectation_loop_mono_suffix [OF A ne \<open>sorted ?vs\<close> _ chain last]
  have "expectation_loop ?cdf A1 ?vs 0 0 \<le> expectation_loop ?cdf A2 ?vs 0 0"
    by (simp add: zero)
  with lvs show ?thesis by (simp add: calculateMaxExpectation_def vs Let_def)
qed


theorem calculateMaxExpectation_nondecreasing_witness:
  "distinct (map fst [(2, 1 / 4), (4, 1 / 2), (6, 1 / 4 :: real)] :: real list) \<and>
   (0::real) \<le> snd (2 :: real, 1 / 4 :: real) \<and> (0::real) \<le> snd (4 :: real, 1 / 2 :: real) \<and>
   (0::real) \<le> snd (6 :: real, 1 / 4 :: real) \<and>
   sum_list (map snd [(2 :: real, 1 / 4), (4, 1 / 2), (6, 1 / 4 :: real)]) = 1 \<and>
   (1::nat) \<le> 1 \<and> (1::nat) \<le> 2 \<and>
   calculateMaxExpectation [(2, 1 / 4), (4, 1 / 2), (6, 1 / 4)] 1 = 4 \<and>
   calculateMaxExpectation [(2, 1 / 4), (4, 1 / 2), (6, 1 / 4)] 2 = 19 / 4 \<and>
   calculateMaxExpectation [(2, 1 / 4), (4, 1 / 2), (6, 1 / 4)] 1
     \<le> calculateMaxExpectation [(2, 1 / 4), (4, 1 / 2), (6, 1 / 4)] 2"
proof -
  have h: "distinct (map fst [(2, 1 / 4), (4, 1 / 2), (6, 1 / 4 :: real)] :: real list)"
    "\<forall>e\<in>set [(2 :: real, 1 / 4), (4, 1 / 2), (6, 1 / 4 :: real)]. 0 \<le> snd e"
    "sum_list (map snd [(2 :: real, 1 / 4), (4, 1 / 2), (6, 1 / 4 :: real)]) = 1"
    "(1::nat) \<le> 1" "(1::nat) \<le> 2" by simp_all
  have n: "(0::real) \<le> snd (2 :: real, 1 / 4 :: real)" "(0::real) \<le> snd (4 :: real, 1 / 2 :: real)"
    "(0::real) \<le> snd (6 :: real, 1 / 4 :: real)" by simp_all
  from calculateMaxExpectation_nondecreasing [OF h] h(1,3,4,5) n
    calculateMaxExpectation_eval_2 calculateMaxExpectation_eval_4
  show ?thesis by blast
qed

section \<open>The objective\<close>

text \<open>
  Claim C4. For every real \<open>p\<close>, counts \<open>N\<close>, \<open>A\<close> and real \<open>C\<close>, the objective
  \<^const>\<open>calculateExpectationForP\<close> is negative infinity if and only if \<open>C - 2 p < 1\<close>;
  otherwise it is the expected maximum of the distribution built for \<open>r = C - 2 p\<close>.
\<close>

theorem calculateExpectationForP_infeasible:
  "(calculateExpectationForP p N A C = NegInfinity \<longleftrightarrow> C - 2 * p < 1) \<and>
   (\<not> C - 2 * p < 1 \<longrightarrow>
      calculateExpectationForP p N A C =
        Finite (calculateMaxExpectation (calculateSDistribution N p (C - 2 * p)) A))"
  by (simp add: calculateExpectationForP_def calculateR_def Let_def)

lemma calculateMaxExpectation_eval_1:
  "calculateMaxExpectation (calculateSDistribution 2 (1 / 2) (3 - 2 * (1 / 2))) 2 = 27 / 8"
  by code_simp

theorem calculateExpectationForP_infeasible_witness:
  "\<not> (3::real) - 2 * (1 / 2) < 1 \<and>
   calculateExpectationForP (1 / 2) 2 2 3 = Finite (27 / 8) \<and>
   (3::real) - 2 * 2 < 1 \<and>
   calculateExpectationForP 2 2 2 3 = NegInfinity"
  using calculateExpectationForP_infeasible [of "1 / 2" 2 2 3]
    calculateExpectationForP_infeasible [of 2 2 2 3]
    calculateMaxExpectation_eval_1
  by simp

section \<open>The ternary search\<close>

subsection \<open>One iteration\<close>

lemma ternary_step_width: "width (ternary_step N A C lr) = 2 / 3 * width lr"
  by (simp add: ternary_step_def width_def Let_def) argo

lemma ternary_step_inside:
  "fst lr \<le> snd lr \<Longrightarrow>
     fst lr \<le> fst (ternary_step N A C lr) \<and>
     fst (ternary_step N A C lr) \<le> snd (ternary_step N A C lr) \<and>
     snd (ternary_step N A C lr) \<le> snd lr"
  by (simp add: ternary_step_def Let_def) argo

lemma funpow_width: "width ((ternary_step N A C ^^ j) lr) = (2 / 3) ^ j * width lr"
  by (induction j) (simp_all add: ternary_step_width)

lemma funpow_inside:
  "fst lr \<le> snd lr \<Longrightarrow>
     fst lr \<le> fst ((ternary_step N A C ^^ j) lr) \<and>
     fst ((ternary_step N A C ^^ j) lr) \<le> snd ((ternary_step N A C ^^ j) lr) \<and>
     snd ((ternary_step N A C ^^ j) lr) \<le> snd lr"
proof (induction j)
  case 0
  then show ?case by simp
next
  case (Suc j)
  let ?m = "(ternary_step N A C ^^ j) lr"
  from Suc have m: "fst lr \<le> fst ?m" "fst ?m \<le> snd ?m" "snd ?m \<le> snd lr" by simp_all
  from ternary_step_inside [OF m(2), of N A C] m show ?case by simp
qed

lemma ternary_search_runs:
  "(2 / 3) ^ n * width lr \<le> tolerance \<Longrightarrow>
   \<exists>k\<le>n. ternary_search N A C tolerance lr = Some ((ternary_step N A C ^^ k) lr) \<and>
          (\<forall>j<k. tolerance < width ((ternary_step N A C ^^ j) lr)) \<and>
          width ((ternary_step N A C ^^ k) lr) \<le> tolerance"
proof (induction n arbitrary: lr)
  case 0
  then have "\<not> snd lr - fst lr > tolerance" by (simp add: width_def)
  then have "ternary_search N A C tolerance lr = Some lr"
    by (subst ternary_search.simps) simp
  with 0 show ?case by simp
next
  case (Suc n)
  show ?case
  proof (cases "snd lr - fst lr > tolerance")
    case False
    then have "ternary_search N A C tolerance lr = Some lr"
      by (subst ternary_search.simps) simp
    with False have "ternary_search N A C tolerance lr = Some ((ternary_step N A C ^^ 0) lr) \<and>
          (\<forall>j<0. tolerance < width ((ternary_step N A C ^^ j) lr)) \<and>
          width ((ternary_step N A C ^^ 0) lr) \<le> tolerance"
      by (simp add: width_def)
    then show ?thesis by blast
  next
    case True
    let ?lr' = "ternary_step N A C lr"
    have unfold: "ternary_search N A C tolerance lr = ternary_search N A C tolerance ?lr'"
      using True by (subst ternary_search.simps) simp
    have "(2 / 3) ^ n * width ?lr' \<le> tolerance"
      using Suc.prems by (simp add: ternary_step_width)
    from Suc.IH [OF this] obtain k where k: "k \<le> n"
      "ternary_search N A C tolerance ?lr' = Some ((ternary_step N A C ^^ k) ?lr')"
      "\<forall>j<k. tolerance < width ((ternary_step N A C ^^ j) ?lr')"
      "width ((ternary_step N A C ^^ k) ?lr') \<le> tolerance"
      by blast
    have shift: "(ternary_step N A C ^^ j) ?lr' = (ternary_step N A C ^^ Suc j) lr" for j
      by (simp add: funpow_swap1)
    have "\<forall>j<Suc k. tolerance < width ((ternary_step N A C ^^ j) lr)"
    proof (intro allI impI)
      fix j assume "j < Suc k"
      show "tolerance < width ((ternary_step N A C ^^ j) lr)"
      proof (cases j)
        case 0
        with True show ?thesis by (simp add: width_def)
      next
        case (Suc j')
        with \<open>j < Suc k\<close> k(3) have "tolerance < width ((ternary_step N A C ^^ j') ?lr')" by simp
        with Suc show ?thesis by (simp only: shift)
      qed
    qed
    moreover have "ternary_search N A C tolerance lr = Some ((ternary_step N A C ^^ Suc k) lr)"
      using unfold k(2) by (simp only: shift)
    moreover have "width ((ternary_step N A C ^^ Suc k) lr) \<le> tolerance"
      using k(4) by (simp only: shift)
    moreover have "Suc k \<le> Suc n" using k(1) by simp
    ultimately show ?thesis by blast
  qed
qed

lemma enough_iterations:
  assumes "0 < tolerance"
  shows "\<exists>n. (2 / 3) ^ n * w \<le> (tolerance::real)"
proof (cases "w \<le> 0")
  case True
  then have "(2 / 3) ^ 0 * w \<le> tolerance" using assms by simp
  then show ?thesis by blast
next
  case False
  then have "0 < tolerance / w" using assms by simp
  from real_arch_pow_inv [OF this, of "2 / 3"] obtain n where "(2 / 3) ^ n < tolerance / w"
    by auto
  with False have "(2 / 3) ^ n * w \<le> tolerance" by (simp add: pos_less_divide_eq)
  then show ?thesis by blast
qed

lemma iteration_bound:
  assumes tol: "0 < tolerance" and w: "w \<le> 1"
    and run: "\<forall>j<k. tolerance < (2 / 3) ^ j * w"
  shows "k \<le> nat \<lceil>log (3 / 2) (1 / tolerance)\<rceil>"
proof (cases k)
  case 0
  then show ?thesis by simp
next
  case (Suc m)
  with run have "tolerance < (2 / 3) ^ m * w" by simp
  also have "\<dots> \<le> (2 / 3) ^ m * 1" using w by (intro mult_left_mono) simp_all
  finally have "tolerance < (2 / 3) ^ m" by simp
  then have "tolerance * (3 / 2) ^ m < (2 / 3) ^ m * (3 / 2) ^ m"
    by (intro mult_strict_right_mono) simp_all
  also have "\<dots> = ((2 / 3) * (3 / 2)) ^ m" by (simp only: power_mult_distrib)
  finally have "tolerance * (3 / 2) ^ m < 1" by simp
  then have "(3 / 2) ^ m < 1 / tolerance" using tol by (simp add: pos_less_divide_eq mult.commute)
  then have "real m < log (3 / 2) (1 / tolerance)"
    by (simp add: less_log_of_power)
  then have "int m < \<lceil>log (3 / 2) (1 / tolerance)\<rceil>" by linarith
  with Suc show ?thesis by linarith
qed


lemma ternary_search_feasible:
  assumes C: "1 \<le> C" and tol: "0 < tolerance"
  shows "\<exists>k. ternary_search N A C tolerance (feasible_interval C) =
               Some ((ternary_step N A C ^^ k) (feasible_interval C)) \<and>
             (\<forall>j<k. tolerance < width ((ternary_step N A C ^^ j) (feasible_interval C))) \<and>
             width ((ternary_step N A C ^^ k) (feasible_interval C)) \<le> tolerance \<and>
             k \<le> nat \<lceil>log (3 / 2) (1 / tolerance)\<rceil>"
proof -
  let ?lr = "feasible_interval C"
  have w: "width ?lr \<le> 1" by (simp add: feasible_interval_def width_def)
  from enough_iterations [OF tol, of "width ?lr"] obtain n
    where "(2 / 3) ^ n * width ?lr \<le> tolerance" by blast
  from ternary_search_runs [OF this, of N A C] obtain k where k:
    "ternary_search N A C tolerance ?lr = Some ((ternary_step N A C ^^ k) ?lr)"
    "\<forall>j<k. tolerance < width ((ternary_step N A C ^^ j) ?lr)"
    "width ((ternary_step N A C ^^ k) ?lr) \<le> tolerance"
    by blast
  from k(2) have "\<forall>j<k. tolerance < (2 / 3) ^ j * width ?lr"
    by (simp add: funpow_width)
  from iteration_bound [OF tol w this] k show ?thesis by blast
qed

lemma findOptimalP_feasible:
  assumes C: "1 \<le> C" and tol: "0 < tolerance"
  shows "\<exists>left right. 0 \<le> left \<and> left \<le> right \<and> right \<le> min 1 ((C - 1) / 2) \<and>
           findOptimalP N A C tolerance =
             Some \<lparr>optimalP = (left + right) / 2,
                   optimalR = calculateR ((left + right) / 2) C,
                   maxExpectation = calculateExpectationForP ((left + right) / 2) N A C\<rparr>"
proof -
  let ?lr = "feasible_interval C"
  from ternary_search_feasible [OF C tol, of N A] obtain k where
    k: "ternary_search N A C tolerance ?lr = Some ((ternary_step N A C ^^ k) ?lr)" by blast
  let ?res = "(ternary_step N A C ^^ k) ?lr"
  have "fst ?lr \<le> snd ?lr" using C by (simp add: feasible_interval_def)
  from funpow_inside [OF this, where N=N and A=A and C=C and j=k]
  have "0 \<le> fst ?res" "fst ?res \<le> snd ?res" "snd ?res \<le> min 1 ((C - 1) / 2)"
    by (simp_all add: feasible_interval_def)
  moreover have "findOptimalP N A C tolerance =
      Some \<lparr>optimalP = (fst ?res + snd ?res) / 2,
            optimalR = calculateR ((fst ?res + snd ?res) / 2) C,
            maxExpectation = calculateExpectationForP ((fst ?res + snd ?res) / 2) N A C\<rparr>"
    using C k by (simp add: findOptimalP_def feasible_interval_def Let_def)
  ultimately show ?thesis by blast
qed

subsection \<open>Concrete runs\<close>

lemma findOptimalP_eval_1: "findOptimalP 1 1 3 1 =
   Some \<lparr>optimalP = 1 / 2, optimalR = 2, maxExpectation = Finite (3 / 2)\<rparr>"
  by code_simp

lemma findOptimalP_eval_2: "findOptimalP 1 1 3 (7 / 10) =
   Some \<lparr>optimalP = 1 / 3, optimalR = 7 / 3, maxExpectation = Finite (13 / 9)\<rparr>"
  by code_simp

lemma findOptimalP_eval_3: "findOptimalP 1 1 (1 / 2) 1 =
   Some \<lparr>optimalP = 0, optimalR = 1, maxExpectation = Finite 1\<rparr>"
  by code_simp


section \<open>Results of the optimizer\<close>

text \<open>
  Claim C3. For a tolerance \<open>> 0\<close>: when \<open>C \<ge> 1\<close> the optimizer returns a result with
  \<open>optimalR = C - 2 optimalP\<close>, \<open>optimalR \<ge> 1\<close> and \<open>optimalP\<close> in the feasible interval
  \<open>[0, min(1, (C - 1) / 2)]\<close>; when \<open>C < 1\<close> it returns a result with \<open>optimalR = 1\<close>.
\<close>

theorem findOptimalP_invariant:
  assumes "0 < tolerance"
  shows "(1 \<le> C \<longrightarrow>
           (\<exists>res. findOptimalP N A C tolerance = Some res \<and>
                  optimalR res = C - 2 * optimalP res \<and>
                  1 \<le> optimalR res \<and>
                  0 \<le> optimalP res \<and> optimalP res \<le> min 1 ((C - 1) / 2))) \<and>
         (C < 1 \<longrightarrow>
           (\<exists>res. findOptimalP N A C tolerance = Some res \<and> optimalR res = 1))"
proof (intro conjI impI)
  assume C: "1 \<le> C"
  from findOptimalP_feasible [OF C assms, of N A] obtain left right where
    b: "0 \<le> left" "left \<le> right" "right \<le> min 1 ((C - 1) / 2)" and
    r: "findOptimalP N A C tolerance =
             Some \<lparr>optimalP = (left + right) / 2,
                   optimalR = calculateR ((left + right) / 2) C,
                   maxExpectation = calculateExpectationForP ((left + right) / 2) N A C\<rparr>"
    by blast
  from b have "right \<le> (C - 1) / 2" by simp
  with b(1,2) have "1 \<le> calculateR ((left + right) / 2) C"
    unfolding calculateR_def by argo
  with b r show "\<exists>res. findOptimalP N A C tolerance = Some res \<and>
                  optimalR res = C - 2 * optimalP res \<and>
                  1 \<le> optimalR res \<and>
                  0 \<le> optimalP res \<and> optimalP res \<le> min 1 ((C - 1) / 2)"
    by (simp add: calculateR_def)
next
  assume "C < 1"
  then show "\<exists>res. findOptimalP N A C tolerance = Some res \<and> optimalR res = 1"
    by (simp add: findOptimalP_def)
qed


theorem findOptimalP_invariant_witness:
  "(0::real) < 1 \<and> (1::real) \<le> 3 \<and>
   findOptimalP 1 1 3 1 = Some \<lparr>optimalP = 1 / 2, optimalR = 2, maxExpectation = Finite (3 / 2)\<rparr> \<and>
   (\<exists>res. findOptimalP 1 1 3 1 = Some res \<and>
                  optimalR res = 3 - 2 * optimalP res \<and>
                  1 \<le> optimalR res \<and>
                  0 \<le> optimalP res \<and> optimalP res \<le> min 1 ((3 - 1) / 2)) \<and>
   (1 / 2 :: real) < 1 \<and>
   (\<exists>res. findOptimalP 1 1 (1 / 2) 1 = Some res \<and> optimalR res = 1)"
  using findOptimalP_invariant [of 1 3 1 1] findOptimalP_invariant [of 1 "1 / 2" 1 1]
    findOptimalP_eval_1
  by simp

text \<open>
  Claim C5. For \<open>C < 1\<close> the optimizer returns exactly
  \<open>{optimalP: 0, optimalR: 1, maxExpectation: N}\<close>, for every tolerance.
\<close>

theorem findOptimalP_fallback:
  "C < 1 \<Longrightarrow>
     findOptimalP N A C tolerance =
       Some \<lparr>optimalP = 0, optimalR = 1, maxExpectation = Finite (real N)\<rparr>"
  by (simp add: findOptimalP_def)

theorem findOptimalP_fallback_witness:
  "(1 / 2 :: real) < 1 \<and>
   findOptimalP 30 50 (1 / 2) (1 / 100000) =
     Some \<lparr>optimalP = 0, optimalR = 1, maxExpectation = Finite 30\<rparr>"
  using findOptimalP_fallback [of "1 / 2" 30 50 "1 / 100000"] by simp

text \<open>
  Claim C6, as amended. The round trip \<open>calculateR(optimalP, C) = optimalR\<close> holds for the
  result of the optimizer when \<open>C \<ge> 1\<close> (and the tolerance is \<open>> 0\<close>), where
  \<open>optimalR\<close> is computed by \<^const>\<open>calculateR\<close> itself.
\<close>

theorem findOptimalP_roundtrip:
  assumes "1 \<le> C" and "0 < tolerance"
  shows "\<exists>res. findOptimalP N A C tolerance = Some res \<and>
               calculateR (optimalP res) C = optimalR res"
proof -
  from findOptimalP_feasible [OF assms, of N A] obtain left right where
    "findOptimalP N A C tolerance =
             Some \<lparr>optimalP = (left + right) / 2,
                   optimalR = calculateR ((left + right) / 2) C,
                   maxExpectation = calculateExpectationForP ((left + right) / 2) N A C\<rparr>"
    by blast
  then show ?thesis by simp
qed

theorem findOptimalP_roundtrip_witness:
  "(1::real) \<le> 3 \<and> (0::real) < 7 / 10 \<and>
   findOptimalP 1 1 3 (7 / 10) =
     Some \<lparr>optimalP = 1 / 3, optimalR = 7 / 3, maxExpectation = Finite (13 / 9)\<rparr> \<and>
   calculateR (1 / 3) 3 = 7 / 3"
  using findOptimalP_roundtrip [of 3 "7 / 10" 1 1] findOptimalP_eval_2
  by (simp add: calculateR_def)

text \<open>
  For \<open>C < 1\<close> the round trip fails: the fallback result has \<open>optimalP = 0\<close> and
  \<open>optimalR = 1\<close>, while \<open>calculateR(0, C) = C\<close>. At \<open>C = 1/2\<close> the two differ by \<open>1/2\<close>.
\<close>

theorem findOptimalP_roundtrip_counterexample:
  "findOptimalP 30 50 (1 / 2) (1 / 100000) =
     Some \<lparr>optimalP = 0, optimalR = 1, maxExpectation = Finite 30\<rparr> \<and>
   calculateR (optimalP (the (findOptimalP 30 50 (1 / 2) (1 / 100000)))) (1 / 2) = 1 / 2 \<and>
   optimalR (the (findOptimalP 30 50 (1 / 2) (1 / 100000))) = 1"
  by (simp add: findOptimalP_def calculateR_def)



section \<open>The sensitivity sampler\<close>

subsection \<open>The loop as a filtered map\<close>

lemma push_point_filter:
  "push_point N A C p results = results @ filter feasible_point [sample_point N A C p]"
  by (simp add: push_point_def sample_point_def feasible_point_def Let_def)

lemma sample_step_filter:
  "sample_step N A C step maxP i results =
     results @ filter feasible_point [sample_point N A C (min (real_of_int i * step) maxP)]"
proof -
  have "(if real_of_int i * step > maxP then maxP else real_of_int i * step)
          = min (real_of_int i * step) maxP"
    by (simp add: min_def)
  then show ?thesis by (simp add: sample_step_def Let_def push_point_filter)
qed

lemma fold_sample_step:
  "fold (sample_step N A C step maxP) is results =
     results @ filter feasible_point
                 (map (\<lambda>i. sample_point N A C (min (real_of_int i * step) maxP)) is)"
  by (induction "is" arbitrary: results) (simp_all add: sample_step_filter)

lemma sensitivityAnalysis_filter:
  assumes "1 \<le> C" and "step \<noteq> 0"
  shows "sensitivityAnalysis N A C step =
     Some (filter feasible_point
             (map (\<lambda>i. sample_point N A C (min (real_of_int i * step) (min 1 ((C - 1) / 2))))
                  [0..\<lfloor>min 1 ((C - 1) / 2) / step\<rfloor>])
           @ (if real_of_int \<lfloor>min 1 ((C - 1) / 2) / step\<rfloor> * step < min 1 ((C - 1) / 2)
              then filter feasible_point [sample_point N A C (min 1 ((C - 1) / 2))] else []))"
  using assms
  by (simp add: sensitivityAnalysis_def Let_def fold_sample_step push_point_filter)

lemma feasible_sample_point:
  "p \<le> (C - 1) / 2 \<Longrightarrow> feasible_point (sample_point N A C p)"
  by (simp add: feasible_point_def sample_point_def calculateExpectationForP_def
      calculateR_def Let_def field_simps)

lemma feasible_maxP: "feasible_point (sample_point N A C (min 1 ((C - 1) / 2)))"
  by (rule feasible_sample_point) (rule min.cobounded2)

lemma grid_below_maxP:
  assumes "0 < step" and "i \<le> \<lfloor>m / step\<rfloor>"
  shows "real_of_int i * step \<le> m"
proof -
  have "real_of_int i \<le> real_of_int \<lfloor>m / step\<rfloor>" using assms(2) by simp
  also have "\<dots> \<le> m / step" by simp
  finally show ?thesis using assms(1) by (simp add: pos_le_divide_eq)
qed

lemma sensitivityAnalysis_grid:
  assumes C: "1 \<le> C" and step: "0 < step"
  shows "sensitivityAnalysis N A C step =
     Some (map (\<lambda>i. sample_point N A C (real_of_int i * step))
               [0..\<lfloor>min 1 ((C - 1) / 2) / step\<rfloor>]
           @ (if real_of_int \<lfloor>min 1 ((C - 1) / 2) / step\<rfloor> * step < min 1 ((C - 1) / 2)
              then [sample_point N A C (min 1 ((C - 1) / 2))] else []))"
proof -
  let ?m = "min 1 ((C - 1) / 2)"
  let ?n = "\<lfloor>?m / step\<rfloor>"
  have grid: "map (\<lambda>i. sample_point N A C (min (real_of_int i * step) ?m)) [0..?n]
              = map (\<lambda>i. sample_point N A C (real_of_int i * step)) [0..?n]"
  proof (rule map_cong [OF refl])
    fix i assume "i \<in> set [0..?n]"
    then have "i \<le> ?n" by simp
    from grid_below_maxP [OF step this]
    show "sample_point N A C (min (real_of_int i * step) ?m)
            = sample_point N A C (real_of_int i * step)"
      by (simp only: min_absorb1)
  qed
  have "\<forall>q \<in> set (map (\<lambda>i. sample_point N A C (real_of_int i * step)) [0..?n]).
          feasible_point q"
  proof
    fix q assume "q \<in> set (map (\<lambda>i. sample_point N A C (real_of_int i * step)) [0..?n])"
    then obtain i where i: "i \<le> ?n" "q = sample_point N A C (real_of_int i * step)" by auto
    from grid_below_maxP [OF step i(1)] have "real_of_int i * step \<le> (C - 1) / 2" by simp
    with i(2) show "feasible_point q" by (simp add: feasible_sample_point)
  qed
  then have all: "filter feasible_point
      (map (\<lambda>i. sample_point N A C (real_of_int i * step)) [0..?n])
      = map (\<lambda>i. sample_point N A C (real_of_int i * step)) [0..?n]"
    by (simp only: filter_True)
  have last: "filter feasible_point [sample_point N A C ?m] = [sample_point N A C ?m]"
    by (simp add: feasible_maxP)
  from step have "step \<noteq> 0" by simp
  from sensitivityAnalysis_filter [OF C this, of N A] show ?thesis
    by (simp only: grid all last)
qed


lemma strictly_increasing_grid:
  assumes "0 < step"
  shows "sorted_wrt (<) (map (\<lambda>i. real_of_int i * step) [0..n])"
proof -
  have "sorted_wrt (\<lambda>i j. real_of_int i * step < real_of_int j * step) [0..n]"
    by (rule sorted_wrt_mono_rel [OF _ sorted_wrt_upto]) (simp add: assms)
  then show ?thesis by (simp add: sorted_wrt_map)
qed

lemma sensitivityAnalysis_ps:
  assumes C: "1 \<le> C" and step: "0 < step"
  shows "\<exists>pts. sensitivityAnalysis N A C step = Some pts \<and>
     map point_p pts =
       map (\<lambda>i. real_of_int i * step) [0..\<lfloor>min 1 ((C - 1) / 2) / step\<rfloor>]
           @ (if real_of_int \<lfloor>min 1 ((C - 1) / 2) / step\<rfloor> * step < min 1 ((C - 1) / 2)
              then [min 1 ((C - 1) / 2)] else [])"
  by (simp add: sensitivityAnalysis_grid [OF assms] sample_point_def comp_def)

subsection \<open>Concrete runs of the sampler\<close>

lemma sensitivityAnalysis_eval_1:
  "sensitivityAnalysis 2 2 3 (3 / 10) = Some
     [\<lparr>point_p = 0, point_r = 3, point_expectation = Finite 2\<rparr>,
      \<lparr>point_p = 3 / 10, point_r = 12 / 5, point_expectation = Finite (82613 / 25000)\<rparr>,
      \<lparr>point_p = 3 / 5, point_r = 9 / 5, point_expectation = Finite (10162 / 3125)\<rparr>,
      \<lparr>point_p = 9 / 10, point_r = 6 / 5, point_expectation = Finite (59819 / 25000)\<rparr>,
      \<lparr>point_p = 1, point_r = 1, point_expectation = Finite 2\<rparr>]"
  by code_simp

lemma sensitivityAnalysis_eval_2:
  "sensitivityAnalysis 2 2 (1 / 2) (3 / 10) =
     Some [\<lparr>point_p = 0, point_r = 1, point_expectation = Finite 2\<rparr>]"
  by code_simp

subsection \<open>The contract of the sampler\<close>

text \<open>
  Claim C7. For \<open>step > 0\<close> and \<open>C \<ge> 1\<close>, with \<open>maxP = min(1, (C - 1) / 2)\<close> and
  \<open>numSteps = \<lfloor>maxP / step\<rfloor>\<close>, the sampler returns the points
  \<open>{p, C - 2 p, expectation(p)}\<close> for the grid \<open>p = i step\<close>, \<open>i = 0..numSteps\<close> (each \<open>p\<close>
  clamped to \<open>maxP\<close>), keeping exactly those whose expectation is not negative infinity,
  followed by one more point at \<open>p = maxP\<close> when \<open>numSteps step < maxP\<close>. For \<open>C < 1\<close> it
  returns the single point \<open>{p: 0, r: 1, expectation: N}\<close>. For \<open>N = 10\<close>, \<open>A = 5\<close>, \<open>C = 3\<close>,
  \<open>step = 0.1\<close> the values of \<open>p\<close> are \<open>0, 0.1, \<dots>, 1.0\<close>.
\<close>

theorem sensitivityAnalysis_contract:
  assumes "0 < step"
  shows "(1 \<le> C \<longrightarrow>
           (let maxP = min 1 ((C - 1) / 2); numSteps = \<lfloor>maxP / step\<rfloor> in
            sensitivityAnalysis N A C step =
              Some (filter feasible_point
                      (map (\<lambda>i. sample_point N A C (min (real_of_int i * step) maxP))
                           [0..numSteps])
                    @ (if real_of_int numSteps * step < maxP
                       then [sample_point N A C maxP] else [])))) \<and>
         (C < 1 \<longrightarrow>
            sensitivityAnalysis N A C step =
              Some [\<lparr>point_p = 0, point_r = 1, point_expectation = Finite (real N)\<rparr>]) \<and>
         (\<exists>pts. sensitivityAnalysis 10 5 3 (1 / 10) = Some pts \<and>
            map point_p pts =
              [0, 1 / 10, 2 / 10, 3 / 10, 4 / 10, 5 / 10, 6 / 10, 7 / 10, 8 / 10, 9 / 10, 1])"
proof (intro conjI impI)
  assume C: "1 \<le> C"
  let ?m = "min 1 ((C - 1) / 2)"
  from assms have "step \<noteq> 0" by simp
  from sensitivityAnalysis_filter [OF C this, of N A]
  show "let maxP = min 1 ((C - 1) / 2); numSteps = \<lfloor>maxP / step\<rfloor> in
            sensitivityAnalysis N A C step =
              Some (filter feasible_point
                      (map (\<lambda>i. sample_point N A C (min (real_of_int i * step) maxP))
                           [0..numSteps])
                    @ (if real_of_int numSteps * step < maxP
                       then [sample_point N A C maxP] else []))"
    by (simp only: Let_def feasible_maxP filter.simps if_True)
next
  assume "C < 1"
  then show "sensitivityAnalysis N A C step =
              Some [\<lparr>point_p = 0, point_r = 1, point_expectation = Finite (real N)\<rparr>]"
    by (simp add: sensitivityAnalysis_def)
next
  have "(1::real) \<le> 3" "(0::real) < 1 / 10" by simp_all
  from sensitivityAnalysis_ps [OF this, of 10 5]
  show "\<exists>pts. sensitivityAnalysis 10 5 3 (1 / 10) = Some pts \<and>
            map point_p pts =
              [0, 1 / 10, 2 / 10, 3 / 10, 4 / 10, 5 / 10, 6 / 10, 7 / 10, 8 / 10, 9 / 10, 1]"
    by (auto simp: upto_rec1)
qed

theorem sensitivityAnalysis_contract_witness:
  "(0::real) < 3 / 10 \<and> (1::real) \<le> 3 \<and>
   sensitivityAnalysis 2 2 3 (3 / 10) = Some
     [\<lparr>point_p = 0, point_r = 3, point_expectation = Finite 2\<rparr>,
      \<lparr>point_p = 3 / 10, point_r = 12 / 5, point_expectation = Finite (82613 / 25000)\<rparr>,
      \<lparr>point_p = 3 / 5, point_r = 9 / 5, point_expectation = Finite (10162 / 3125)\<rparr>,
      \<lparr>point_p = 9 / 10, point_r = 6 / 5, point_expectation = Finite (59819 / 25000)\<rparr>,
      \<lparr>point_p = 1, point_r = 1, point_expectation = Finite 2\<rparr>] \<and>
   sensitivityAnalysis 2 2 3 (3 / 10) =
     Some (filter feasible_point
             (map (\<lambda>i. sample_point 2 2 3 (min (real_of_int i * (3 / 10)) (min 1 ((3 - 1) / 2))))
                  [0..\<lfloor>min 1 ((3 - 1) / 2) / (3 / 10 :: real)\<rfloor>])
           @ (if real_of_int \<lfloor>min 1 ((3 - 1) / 2) / (3 / 10 :: real)\<rfloor> * (3 / 10) < min 1 ((3 - 1) / 2)
              then [sample_point 2 2 3 (min 1 ((3 - 1) / 2))] else [])) \<and>
   (1 / 2 :: real) < 1 \<and>
   sensitivityAnalysis 2 2 (1 / 2) (3 / 10) =
     Some [\<lparr>point_p = 0, point_r = 1, point_expectation = Finite (real 2)\<rparr>]"
proof -
  have h: "(0::real) < 3 / 10" "(1::real) \<le> 3" "(1 / 2 :: real) < 1" by simp_all
  note t1 = sensitivityAnalysis_contract [OF h(1), of 3 2 2, unfolded Let_def]
  note t2 = sensitivityAnalysis_contract [OF h(1), of "1 / 2" 2 2, unfolded Let_def]
  from t1 h(2) have a: "sensitivityAnalysis 2 2 3 (3 / 10) =
     Some (filter feasible_point
             (map (\<lambda>i. sample_point 2 2 3 (min (real_of_int i * (3 / 10)) (min 1 ((3 - 1) / 2))))
                  [0..\<lfloor>min 1 ((3 - 1) / 2) / (3 / 10 :: real)\<rfloor>])
           @ (if real_of_int \<lfloor>min 1 ((3 - 1) / 2) / (3 / 10 :: real)\<rfloor> * (3 / 10) < min 1 ((3 - 1) / 2)
              then [sample_point 2 2 3 (min 1 ((3 - 1) / 2))] else []))"
    by blast
  from t2 h(3) have b: "sensitivityAnalysis 2 2 (1 / 2) (3 / 10) =
     Some [\<lparr>point_p = 0, point_r = 1, point_expectation = Finite (real 2)\<rparr>]"
    by blast
  from h a b sensitivityAnalysis_eval_1 show ?thesis by blast
qed

text \<open>
  Claim C10. For \<open>step > 0\<close> and every real \<open>C\<close> the sampler returns a non-empty list
  whose values of \<open>p\<close> are strictly increasing; for \<open>C \<ge> 1\<close> its first point is the
  feasible point at \<open>p = 0\<close> with \<open>r = C\<close>.
\<close>

theorem sensitivityAnalysis_nonempty_increasing:
  assumes "0 < step"
  shows "\<exists>pts. sensitivityAnalysis N A C step = Some pts \<and> pts \<noteq> [] \<and>
           sorted_wrt (<) (map point_p pts) \<and>
           (1 \<le> C \<longrightarrow> hd pts = sample_point N A C 0 \<and> point_p (hd pts) = 0 \<and>
                      point_r (hd pts) = C \<and> feasible_point (hd pts))"
proof (cases "C < 1")
  case True
  then show ?thesis by (simp add: sensitivityAnalysis_def)
next
  case False
  then have C: "1 \<le> C" by simp
  let ?m = "min 1 ((C - 1) / 2)"
  let ?n = "\<lfloor>?m / step\<rfloor>"
  let ?grid = "map (\<lambda>i. sample_point N A C (real_of_int i * step)) [0..?n]"
  let ?extra = "if real_of_int ?n * step < ?m then [sample_point N A C ?m] else []"
  have run: "sensitivityAnalysis N A C step = Some (?grid @ ?extra)"
    by (rule sensitivityAnalysis_grid [OF C assms])
  have "0 \<le> ?m" using C by simp
  then have "0 \<le> ?m / step" using assms by simp
  then have n: "0 \<le> ?n" by simp
  then have upto: "[0..?n] = 0 # [1..?n]" by (simp add: upto_rec1)
  have nonempty: "?grid @ ?extra \<noteq> []" by (simp add: upto)
  have head: "hd (?grid @ ?extra) = sample_point N A C 0" by (simp add: upto)
  have first: "point_p (sample_point N A C 0) = 0" "point_r (sample_point N A C 0) = C"
    by (simp_all add: sample_point_def calculateR_def)
  have feas: "feasible_point (sample_point N A C 0)"
    using C by (intro feasible_sample_point) simp
  have ps: "map point_p (?grid @ ?extra) =
      map (\<lambda>i. real_of_int i * step) [0..?n]
        @ (if real_of_int ?n * step < ?m then [?m] else [])"
    by (simp add: sample_point_def comp_def)
  have "sorted_wrt (<) (map point_p (?grid @ ?extra))"
    unfolding ps
  proof (cases "real_of_int ?n * step < ?m")
    case False
    then show "sorted_wrt (<) (map (\<lambda>i. real_of_int i * step) [0..?n]
        @ (if real_of_int ?n * step < ?m then [?m] else []))"
      by (simp only: if_False append_Nil2 strictly_increasing_grid [OF assms])
  next
    case True
    have "\<forall>x \<in> set (map (\<lambda>i. real_of_int i * step) [0..?n]). x < ?m"
    proof
      fix x assume "x \<in> set (map (\<lambda>i. real_of_int i * step) [0..?n])"
      then obtain i where i: "i \<le> ?n" "x = real_of_int i * step" by auto
      from i(1) have "real_of_int i \<le> real_of_int ?n" by simp
      then have "real_of_int i * step \<le> real_of_int ?n * step"
        using assms by (intro mult_right_mono) simp_all
      with True i(2) show "x < ?m" by simp
    qed
    with strictly_increasing_grid [OF assms, of ?n] True
    show "sorted_wrt (<) (map (\<lambda>i. real_of_int i * step) [0..?n]
        @ (if real_of_int ?n * step < ?m then [?m] else []))"
      by (simp only: if_True sorted_wrt_append) simp
  qed
  with run nonempty head first feas show ?thesis by (simp only: simp_thms) simp
qed

theorem sensitivityAnalysis_nonempty_increasing_witness:
  "(0::real) < 3 / 10 \<and>
   (\<exists>pts. sensitivityAnalysis 2 2 3 (3 / 10) = Some pts \<and> pts \<noteq> [] \<and>
      map point_p pts = [0, 3 / 10, 3 / 5, 9 / 10, 1] \<and>
      sorted_wrt (<) (map point_p pts) \<and> (1::real) \<le> 3 \<and> point_r (hd pts) = 3) \<and>
   (\<exists>pts. sensitivityAnalysis 2 2 (1 / 2) (3 / 10) = Some pts \<and> pts \<noteq> [] \<and>
      sorted_wrt (<) (map point_p pts))"
  using sensitivityAnalysis_nonempty_increasing [of "3 / 10" 2 2 3]
    sensitivityAnalysis_nonempty_increasing [of "3 / 10" 2 2 "1 / 2"]
    sensitivityAnalysis_eval_1 sensitivityAnalysis_eval_2
  by (simp add: sample_point_def calculateR_def)

end
